theory Spec2Isabelle
  imports
    Complex_Main
    "HOL-Library.Word"
    "HOL-Library.List_Lexorder"
    "HOL-Library.Char_ord"
    "HOL-Library.Product_Lexorder"
    "HOL-Library.AList"
begin

section \<open>The CRDT register store (crdt\_state.py)\<close>

text \<open>
  Keys and node identifiers are Python strings, compared as Python compares them: by
  code point, which on the UTF-8 bytes of a \<^typ>\<open>string\<close> is the lexicographic order
  on the characters. Timestamps are readings of the wall clock; only their comparison
  is used by the store, and they are modelled as \<^typ>\<open>real\<close>. Values are opaque.
  A Python dictionary held by the store is a map; a dictionary that is iterated
  (the three parts of a remote snapshot) is the list of its items in iteration order.
\<close>

type_synonym 'v register = "'v \<times> real \<times> string"
type_synonym tombstone = "real \<times> string"

record 'v CRDTState =
  node_id :: string
  data :: "string \<rightharpoonup> 'v register"
  vector_clock :: "string \<rightharpoonup> int"
  tombstones :: "string \<rightharpoonup> tombstone"
  version :: int

definition CRDTState_init :: "string \<Rightarrow> 'v CRDTState" where
  "CRDTState_init n =
     \<lparr>node_id = n, data = Map.empty, vector_clock = Map.empty,
      tombstones = Map.empty, version = 0\<rparr>"

text \<open>
  \<open>vector_clock\<close> is a \<open>defaultdict(int)\<close>: reading a missing node yields 0 and
  stores that 0 under the node.
\<close>

definition clock_read :: "(string \<rightharpoonup> int) \<Rightarrow> string \<Rightarrow> int" where
  "clock_read vc n = (case vc n of None \<Rightarrow> 0 | Some c \<Rightarrow> c)"

text \<open>
  \<open>set\<close>, \<open>get\<close> and \<open>delete\<close>. The reading of \<open>time.time()\<close> is the argument
  \<open>timestamp\<close>. \<open>get\<close> returns \<open>None\<close> for a missing or deleted key.
\<close>

definition CRDTState_set :: "'v CRDTState \<Rightarrow> real \<Rightarrow> string \<Rightarrow> 'v \<Rightarrow> 'v CRDTState" where
  "CRDTState_set s timestamp key val =
     s\<lparr>data := (data s)(key \<mapsto> (val, timestamp, node_id s)),
       vector_clock := (vector_clock s)(node_id s \<mapsto> clock_read (vector_clock s) (node_id s) + 1),
       version := version s + 1,
       tombstones := (if key \<in> dom (tombstones s) then (tombstones s)(key := None)
                      else tombstones s)\<rparr>"

definition CRDTState_get :: "'v CRDTState \<Rightarrow> string \<Rightarrow> 'v option" where
  "CRDTState_get s key =
     (if key \<in> dom (tombstones s) then None
      else (case data s key of Some (val, ts, org) \<Rightarrow> Some val | None \<Rightarrow> None))"

definition CRDTState_delete :: "'v CRDTState \<Rightarrow> real \<Rightarrow> string \<Rightarrow> 'v CRDTState" where
  "CRDTState_delete s timestamp key =
     s\<lparr>tombstones := (tombstones s)(key \<mapsto> (timestamp, node_id s)),
       vector_clock := (vector_clock s)(node_id s \<mapsto> clock_read (vector_clock s) (node_id s) + 1),
       version := version s + 1\<rparr>"

text \<open>
  The comparison written four times in \<open>merge_remote_state\<close>:
  \<open>timestamp > local_ts or (timestamp == local_ts and node_id > local_node)\<close>.
\<close>

definition newer :: "real \<Rightarrow> string \<Rightarrow> real \<Rightarrow> string \<Rightarrow> bool" where
  "newer timestamp node local_ts local_node =
     (timestamp > local_ts \<or> (timestamp = local_ts \<and> node > local_node))"

text \<open>One iteration of the loop over \<open>remote_data.items()\<close>; the flag is \<open>modified\<close>.\<close>

fun merge_data_step ::
  "string \<times> 'v register \<Rightarrow> 'v CRDTState \<times> bool \<Rightarrow> 'v CRDTState \<times> bool" where
  "merge_data_step (key, val, timestamp, node) (s, modified) =
     (let should_update =
            (case data s key of
               Some (local_value, local_ts, local_node) \<Rightarrow> newer timestamp node local_ts local_node
             | None \<Rightarrow> True);
          should_update =
            (case tombstones s key of
               Some (tomb_ts, tomb_node) \<Rightarrow>
                 if newer tomb_ts tomb_node timestamp node then False else should_update
             | None \<Rightarrow> should_update)
      in if should_update
         then (s\<lparr>data := (data s)(key \<mapsto> (val, timestamp, node))\<rparr>, True)
         else (s, modified))"

text \<open>One iteration of the loop over \<open>remote_tombstones.items()\<close>.\<close>

fun merge_tombstone_step ::
  "string \<times> tombstone \<Rightarrow> 'v CRDTState \<times> bool \<Rightarrow> 'v CRDTState \<times> bool" where
  "merge_tombstone_step (key, timestamp, node) (s, modified) =
     (let should_update =
            (case tombstones s key of
               Some (local_ts, local_node) \<Rightarrow> newer timestamp node local_ts local_node
             | None \<Rightarrow> True)
      in if should_update
         then (s\<lparr>tombstones := (tombstones s)(key \<mapsto> (timestamp, node)),
                  data := (case data s key of
                             Some (data_value, data_ts, data_node) \<Rightarrow>
                               if newer timestamp node data_ts data_node
                               then (data s)(key := None) else data s
                           | None \<Rightarrow> data s)\<rparr>, True)
         else (s, modified))"

text \<open>One iteration of the loop over \<open>remote_vector_clock.items()\<close>.\<close>

fun merge_clock_step :: "string \<times> int \<Rightarrow> 'v CRDTState \<Rightarrow> 'v CRDTState" where
  "merge_clock_step (node, seq) s =
     (let cur = clock_read (vector_clock s) node;
          vc = (vector_clock s)(node \<mapsto> cur)
      in if seq > cur then s\<lparr>vector_clock := vc(node \<mapsto> seq)\<rparr>
         else s\<lparr>vector_clock := vc\<rparr>)"

text \<open>\<open>merge_remote_state\<close> returns the new state and \<open>modified\<close>.\<close>

definition merge_remote_state ::
  "'v CRDTState \<Rightarrow> (string \<times> 'v register) list \<Rightarrow> (string \<times> tombstone) list \<Rightarrow>
   (string \<times> int) list \<Rightarrow> 'v CRDTState \<times> bool" where
  "merge_remote_state s remote_data remote_tombstones remote_vector_clock =
     (let (s1, m1) = fold merge_data_step remote_data (s, False);
          (s2, m2) = fold merge_tombstone_step remote_tombstones (s1, m1);
          s3 = fold merge_clock_step remote_vector_clock s2
      in if m2 then (s3\<lparr>version := version s3 + 1\<rparr>, True) else (s3, False))"

text \<open>A sequence of operations on one store.\<close>

datatype 'v store_op =
    Set real string 'v
  | Delete real string
  | Merge "(string \<times> 'v register) list" "(string \<times> tombstone) list" "(string \<times> int) list"

fun apply_store_op :: "'v CRDTState \<Rightarrow> 'v store_op \<Rightarrow> 'v CRDTState" where
  "apply_store_op s (Set t k v) = CRDTState_set s t k v"
| "apply_store_op s (Delete t k) = CRDTState_delete s t k"
| "apply_store_op s (Merge rd rt rvc) = fst (merge_remote_state s rd rt rvc)"

definition run_store_ops :: "'v CRDTState \<Rightarrow> 'v store_op list \<Rightarrow> 'v CRDTState" where
  "run_store_ops s ops = foldl apply_store_op s ops"


definition tombstone_settled :: "'v CRDTState \<Rightarrow> string \<times> tombstone \<Rightarrow> bool" where
  "tombstone_settled s x =
     (case x of (k, T) \<Rightarrow> \<exists>T0. tombstones s k = Some T0 \<and> \<not> T0 < T)"



definition key_tomb :: "'m::linorder option \<Rightarrow> ('v \<times> 'm) option \<times> 'm option \<Rightarrow> ('v \<times> 'm) option \<times> 'm option" where
  "key_tomb Tr DT =
     (case Tr of None \<Rightarrow> DT
      | Some T' \<Rightarrow>
          if (case snd DT of None \<Rightarrow> True | Some T0 \<Rightarrow> T0 < T')
          then ((case fst DT of None \<Rightarrow> None | Some d \<Rightarrow> if snd d < T' then None else Some d), Some T')
          else DT)"


section \<open>The reliable transport (reliable\_udp.py)\<close>

unbundle bit_operations_syntax

text \<open>
  Datagrams are lists of bytes. The payload of a packet is a JSON value. Three library
  functions are parameters of the model: \<open>md5\<close> is \<open>hashlib.md5(data)\<close> as a 128-bit
  digest, \<open>dumps\<close> is \<open>json.dumps(payload).encode('utf-8')\<close>, and \<open>loads\<close> is
  \<open>json.loads(payload_bytes.decode('utf-8'))\<close>, with \<open>None\<close> when it raises.
\<close>

type_synonym byte = "8 word"
type_synonym addr = "string \<times> int"

datatype json =
    JNull
  | JBool bool
  | JInt int
  | JFloat real
  | JString string
  | JArray "json list"
  | JObject "(string \<times> json) list"

definition SYNC_REQUEST :: int where "SYNC_REQUEST = 2"
definition SYNC_RESPONSE :: int where "SYNC_RESPONSE = 3"
definition HEARTBEAT :: int where "HEARTBEAT = 4"
definition DISCOVERY :: int where "DISCOVERY = 5"

record ReliableUDPPacket =
  packet_type :: int
  seq_num :: int
  payload :: json
  timestamp :: real

definition VERSION :: int where "VERSION = 1"
definition HEADER_SIZE :: nat where "HEADER_SIZE = 10"
definition MAX_PAYLOAD_SIZE :: nat where "MAX_PAYLOAD_SIZE = 65507 - HEADER_SIZE"

text \<open>
  \<open>_calculate_checksum\<close>: \<open>int(hashlib.md5(data).hexdigest()[:8], 16)\<close>, the first eight
  hexadecimal digits of the digest, that is its 32 most significant bits.
\<close>

definition calculate_checksum :: "(byte list \<Rightarrow> 128 word) \<Rightarrow> byte list \<Rightarrow> 32 word" where
  "calculate_checksum md5 d = ucast (drop_bit 96 (md5 d))"

text \<open>
  \<open>struct.pack('!BBII', ...)\<close> and \<open>struct.unpack('!BBII', ...)\<close>: network byte order,
  no padding. \<open>pack\<close> raises \<open>struct.error\<close> on an argument out of the range of its
  format; \<open>unpack\<close> raises it on a buffer that is not 10 bytes long.
\<close>

datatype error = StructError

definition pack_I :: "32 word \<Rightarrow> byte list" where
  "pack_I w = [ucast (drop_bit 24 w), ucast (drop_bit 16 w), ucast (drop_bit 8 w), ucast w]"

definition unpack_I :: "byte \<Rightarrow> byte \<Rightarrow> byte \<Rightarrow> byte \<Rightarrow> 32 word" where
  "unpack_I a b c d =
     push_bit 24 (ucast a) OR push_bit 16 (ucast b) OR push_bit 8 (ucast c) OR ucast d"

definition struct_pack :: "int \<Rightarrow> int \<Rightarrow> int \<Rightarrow> 32 word \<Rightarrow> error + byte list" where
  "struct_pack v t s c =
     (if 0 \<le> v \<and> v \<le> 255 \<and> 0 \<le> t \<and> t \<le> 255 \<and> 0 \<le> s \<and> s \<le> 4294967295
      then Inr ([word_of_int v, word_of_int t] @ pack_I (word_of_int s) @ pack_I c)
      else Inl StructError)"

fun struct_unpack :: "byte list \<Rightarrow> error + (int \<times> int \<times> int \<times> 32 word)" where
  "struct_unpack [v, t, s0, s1, s2, s3, c0, c1, c2, c3] =
     Inr (uint v, uint t, uint (unpack_I s0 s1 s2 s3), unpack_I c0 c1 c2 c3)"
| "struct_unpack _ = Inl StructError"

text \<open>
  \<open>serialize\<close>. A payload longer than \<open>MAX_PAYLOAD_SIZE\<close> is cut (with a warning) before
  the checksum is computed.
\<close>

definition serialize ::
  "(byte list \<Rightarrow> 128 word) \<Rightarrow> (json \<Rightarrow> byte list) \<Rightarrow> ReliableUDPPacket \<Rightarrow> error + byte list" where
  "serialize md5 dumps p =
     (let payload_bytes = dumps (payload p);
          payload_bytes =
            (if length payload_bytes > MAX_PAYLOAD_SIZE
             then take MAX_PAYLOAD_SIZE payload_bytes else payload_bytes);
          checksum = calculate_checksum md5 payload_bytes
      in case struct_pack VERSION (packet_type p) (seq_num p) checksum of
           Inl e \<Rightarrow> Inl e
         | Inr header \<Rightarrow> Inr (header @ payload_bytes))"

text \<open>
  \<open>deserialize\<close> returns \<open>None\<close> at four places; the model says which one. Every
  exception inside the \<open>try\<close> block ends in \<open>DeserializationError\<close>. The \<open>timestamp\<close>
  of the new packet is the reading \<open>now\<close> of the receiver's clock.
\<close>

datatype drop_reason = TooShort | UnknownVersion | ChecksumMismatch | DeserializationError

definition deserialize_result ::
  "(byte list \<Rightarrow> 128 word) \<Rightarrow> (byte list \<Rightarrow> json option) \<Rightarrow> real \<Rightarrow> byte list \<Rightarrow>
   drop_reason + ReliableUDPPacket" where
  "deserialize_result md5 loads now d =
     (if length d < HEADER_SIZE then Inl TooShort
      else case struct_unpack (take HEADER_SIZE d) of
             Inl e \<Rightarrow> Inl DeserializationError
           | Inr (ver, pkt_type, seq, checksum) \<Rightarrow>
               if ver \<noteq> VERSION then Inl UnknownVersion
               else let payload_bytes = drop HEADER_SIZE d
                    in if calculate_checksum md5 payload_bytes \<noteq> checksum
                       then Inl ChecksumMismatch
                       else case loads payload_bytes of
                              None \<Rightarrow> Inl DeserializationError
                            | Some pl \<Rightarrow>
                                Inr \<lparr>packet_type = pkt_type, seq_num = seq,
                                     payload = pl, timestamp = now\<rparr>)"

definition deserialize ::
  "(byte list \<Rightarrow> 128 word) \<Rightarrow> (byte list \<Rightarrow> json option) \<Rightarrow> real \<Rightarrow> byte list \<Rightarrow>
   ReliableUDPPacket option" where
  "deserialize md5 loads now d =
     (case deserialize_result md5 loads now d of Inl r \<Rightarrow> None | Inr p \<Rightarrow> Some p)"

text \<open>
  The socket. \<open>pending_acks\<close> is a dictionary that the retry loop iterates: the list of
  its items, with distinct keys. \<open>received_seqs\<close> is a \<open>defaultdict(set)\<close> that is only
  read by membership: a function from addresses to sets. \<open>handlers\<close> maps a packet type
  to a callback. What the socket does to the outside is a list of events: a datagram
  handed to \<open>sendto\<close>, or a call \<open>handler(packet.payload, addr)\<close>; the event of a call
  records the whole packet. What a callback itself does is outside the model.
\<close>

type_synonym pending = "ReliableUDPPacket \<times> real \<times> nat \<times> addr"

record 'h ReliableUDPSocket =
  send_seq :: int
  pending_acks :: "(int \<times> pending) list"
  received_seqs :: "addr \<Rightarrow> int set"
  handlers :: "int \<rightharpoonup> 'h"

datatype 'h event = SendTo "byte list" addr | Dispatch 'h ReliableUDPPacket addr

definition MAX_RETRIES :: nat where "MAX_RETRIES = 5"
definition INITIAL_TIMEOUT :: real where "INITIAL_TIMEOUT = 0.5"
definition MAX_TIMEOUT :: real where "MAX_TIMEOUT = 8.0"

definition ReliableUDPSocket_init :: "'h ReliableUDPSocket" where
  "ReliableUDPSocket_init =
     \<lparr>send_seq = 0, pending_acks = [], received_seqs = (\<lambda>a. {}), handlers = Map.empty\<rparr>"


text \<open>
  \<open>send_reliable\<close>: an exception raised by \<open>serialize\<close> leaves the sequence number
  consumed and nothing sent or recorded.
\<close>

definition send_reliable ::
  "(byte list \<Rightarrow> 128 word) \<Rightarrow> (json \<Rightarrow> byte list) \<Rightarrow> real \<Rightarrow> 'h ReliableUDPSocket \<Rightarrow> addr \<Rightarrow> int \<Rightarrow>
   json \<Rightarrow> 'h ReliableUDPSocket \<times> (error + int \<times> 'h event)" where
  "send_reliable md5 dumps now s a ptype pl =
     (let seq = send_seq s;
          s1 = s\<lparr>send_seq := send_seq s + 1\<rparr>;
          packet = \<lparr>packet_type = ptype, seq_num = seq, payload = pl, timestamp = now\<rparr>
      in case serialize md5 dumps packet of
           Inl e \<Rightarrow> (s1, Inl e)
         | Inr d \<Rightarrow>
             (s1\<lparr>pending_acks := AList.update seq (packet, now, 0, a) (pending_acks s1)\<rparr>,
              Inr (seq, SendTo d a)))"








text \<open>
  One iteration of \<open>_retry_loop\<close>, with \<open>now\<close> the reading of the clock at its start and
  \<open>clock seq\<close> the reading when the entry of \<open>seq\<close> is rewritten. The scan runs over a copy
  of the items and edits the table; the resend phase runs after it. An exception of
  \<open>serialize\<close> in the resend phase is not caught.
\<close>

definition retry_timeout :: "nat \<Rightarrow> real" where
  "retry_timeout retries = min (INITIAL_TIMEOUT * 2 ^ retries) MAX_TIMEOUT"

fun scan_step ::
  "real \<Rightarrow> int \<times> pending \<Rightarrow>
   (int \<times> pending) list \<times> (int \<times> ReliableUDPPacket \<times> nat \<times> addr) list \<Rightarrow>
   (int \<times> pending) list \<times> (int \<times> ReliableUDPPacket \<times> nat \<times> addr) list" where
  "scan_step now (seq, packet, send_time, retries, a) (pend, to_retry) =
     (if now - send_time > retry_timeout retries
      then if retries \<ge> MAX_RETRIES
           then (AList.delete seq pend, to_retry)
           else (pend, to_retry @ [(seq, packet, retries, a)])
      else (pend, to_retry))"

fun resend ::
  "(ReliableUDPPacket \<Rightarrow> error + byte list) \<Rightarrow> (int \<Rightarrow> real) \<Rightarrow>
   (int \<times> ReliableUDPPacket \<times> nat \<times> addr) list \<Rightarrow>
   (int \<times> pending) list \<times> (byte list \<times> addr) list \<Rightarrow>
   error + (int \<times> pending) list \<times> (byte list \<times> addr) list" where
  "resend ser clock [] (pend, sent) = Inr (pend, sent)"
| "resend ser clock ((seq, packet, retries, a) # rest) (pend, sent) =
     (case ser packet of
        Inl e \<Rightarrow> Inl e
      | Inr d \<Rightarrow>
          resend ser clock rest
            (if seq \<in> fst ` set pend
             then AList.update seq (packet, clock seq, retries + 1, a) pend else pend,
             sent @ [(d, a)]))"

definition retry_loop_iteration ::
  "(byte list \<Rightarrow> 128 word) \<Rightarrow> (json \<Rightarrow> byte list) \<Rightarrow> (int \<Rightarrow> real) \<Rightarrow> real \<Rightarrow>
   'h ReliableUDPSocket \<Rightarrow> error + 'h ReliableUDPSocket \<times> (byte list \<times> addr) list" where
  "retry_loop_iteration md5 dumps clock now s =
     (case fold (scan_step now) (pending_acks s) (pending_acks s, []) of
        (pend, to_retry) \<Rightarrow>
          (case resend (serialize md5 dumps) clock to_retry (pend, []) of
             Inl e \<Rightarrow> Inl e
           | Inr (pend', sent) \<Rightarrow> Inr (s\<lparr>pending_acks := pend'\<rparr>, sent)))"

text \<open>
  Stand-ins for the three library functions, used only to run the model on concrete
  packets: the digest depends on the length of its input alone, and the codec knows JSON
  strings without escapes, written between double quotes.
\<close>

definition sample_md5 :: "byte list \<Rightarrow> 128 word" where
  "sample_md5 d = push_bit 96 (word_of_nat (length d))"

definition sample_dumps :: "json \<Rightarrow> byte list" where
  "sample_dumps j =
     (case j of JString s \<Rightarrow> 34 # map (\<lambda>c. word_of_nat (of_char c)) s @ [34]
      | _ \<Rightarrow> [110, 117, 108, 108])"

definition sample_loads :: "byte list \<Rightarrow> json option" where
  "sample_loads bs =
     (if 2 \<le> length bs \<and> hd bs = 34 \<and> last bs = 34
      then Some (JString (map (\<lambda>b. char_of (unat b)) (butlast (tl bs))))
      else if bs = [110, 117, 108, 108] then Some JNull else None)"

text \<open>
  The two ways the scan acts on an entry of the table, and the entry it appends to
  \<open>to_retry\<close>.
\<close>

definition gives_up :: "real \<Rightarrow> int \<times> pending \<Rightarrow> bool" where
  "gives_up now x =
     (case x of (seq, packet, send_time, retries, a) \<Rightarrow>
        now - send_time > retry_timeout retries \<and> retries \<ge> MAX_RETRIES)"

definition retries_now :: "real \<Rightarrow> int \<times> pending \<Rightarrow> bool" where
  "retries_now now x =
     (case x of (seq, packet, send_time, retries, a) \<Rightarrow>
        now - send_time > retry_timeout retries \<and> retries < MAX_RETRIES)"

definition to_retry_entry :: "int \<times> pending \<Rightarrow> int \<times> ReliableUDPPacket \<times> nat \<times> addr" where
  "to_retry_entry x = (case x of (seq, packet, send_time, retries, a) \<Rightarrow> (seq, packet, retries, a))"

section \<open>Properties of the store\<close>

lemma newer_less: "newer t n t0 n0 \<longleftrightarrow> (t0, n0) < (t, n)"
  by (auto simp: newer_def less_prod_def)

lemma version_data_fold:
  "version (fst (fold merge_data_step xs (s, m))) = version s"
proof (induction xs arbitrary: s m)
  case Nil
  show ?case by simp
next
  case (Cons x xs)
  obtain k v t n where x: "x = (k, v, t, n)" by (cases x) auto
  show ?case
    by (simp add: x Let_def Cons.IH)
qed

lemma version_tombstone_fold:
  "version (fst (fold merge_tombstone_step xs (s, m))) = version s"
proof (induction xs arbitrary: s m)
  case Nil
  show ?case by simp
next
  case (Cons x xs)
  obtain k t n where x: "x = (k, t, n)" by (cases x) auto
  show ?case
    by (simp add: x Let_def Cons.IH)
qed

lemma version_clock_fold:
  "version (fold merge_clock_step xs s) = version s"
proof (induction xs arbitrary: s)
  case Nil
  show ?case by simp
next
  case (Cons x xs)
  obtain n q where x: "x = (n, q)" by (cases x) auto
  show ?case
    by (simp add: x Let_def Cons.IH)
qed

lemma version_merge:
  "version (fst (merge_remote_state s rd rt rvc)) =
     version s + (if snd (merge_remote_state s rd rt rvc) then 1 else 0)"
proof -
  obtain s1 m1 where a: "fold merge_data_step rd (s, False) = (s1, m1)"
    by (cases "fold merge_data_step rd (s, False)") auto
  obtain s2 m2 where b: "fold merge_tombstone_step rt (s1, m1) = (s2, m2)"
    by (cases "fold merge_tombstone_step rt (s1, m1)") auto
  have v1: "version s1 = version s"
    using version_data_fold [of rd s False] by (simp add: a)
  have v2: "version s2 = version s1"
    using version_tombstone_fold [of rt s1 m1] by (simp add: b)
  show ?thesis
    by (simp add: merge_remote_state_def a b v1 v2 version_clock_fold Let_def)
qed

lemma version_apply_store_op: "version s \<le> version (apply_store_op s x)"
proof (cases x)
  case (Set t k v)
  then show ?thesis by (simp add: CRDTState_set_def)
next
  case (Delete t k)
  then show ?thesis by (simp add: CRDTState_delete_def)
next
  case (Merge rd rt rvc)
  then show ?thesis by (simp add: version_merge)
qed

lemma version_foldl_ops: "version s \<le> version (foldl apply_store_op s ops)"
proof (induction ops arbitrary: s)
  case Nil
  show ?case by simp
next
  case (Cons x xs)
  have "version s \<le> version (apply_store_op s x)"
    by (rule version_apply_store_op)
  also have "\<dots> \<le> version (foldl apply_store_op (apply_store_op s x) xs)"
    by (rule Cons.IH)
  finally show ?case by simp
qed

text \<open>
  Claim C10. The version counter never decreases along any sequence of \<open>set\<close>,
  \<open>delete\<close> and \<open>merge_remote_state\<close>: \<open>set\<close> and \<open>delete\<close> add one, and a merge adds
  one exactly when it returns \<open>modified = True\<close> and leaves the counter alone otherwise.
\<close>

theorem C10_version_monotone:
  "version (CRDTState_set s t k v) = version s + 1
   \<and> version (CRDTState_delete s t k) = version s + 1
   \<and> version (fst (merge_remote_state s rd rt rvc)) =
       version s + (if snd (merge_remote_state s rd rt rvc) then 1 else 0)
   \<and> version s \<le> version (run_store_ops s ops)"
  by (simp add: CRDTState_set_def CRDTState_delete_def version_merge
      run_store_ops_def version_foldl_ops)







lemma tombstone_step_preserves:
  "tombstone_settled s y \<Longrightarrow> tombstone_settled (fst (merge_tombstone_step x (s, m))) y"
  by (cases x; cases y) (auto simp: tombstone_settled_def newer_less Let_def split: option.splits)











lemma fold_tombstone_preserves:
  "tombstone_settled s y \<Longrightarrow> tombstone_settled (fst (fold merge_tombstone_step xs (s, m))) y"
proof (induction xs arbitrary: s m)
  case Nil
  then show ?case by simp
next
  case (Cons x xs)
  obtain s' m' where st: "merge_tombstone_step x (s, m) = (s', m')"
    by (cases "merge_tombstone_step x (s, m)") auto
  have "tombstone_settled s' y"
    using tombstone_step_preserves [OF Cons.prems, of x m] by (simp add: st)
  then show ?case
    by (simp add: st Cons.IH)
qed




lemma clock_step_frame:
  "data (merge_clock_step x s) = data s \<and> tombstones (merge_clock_step x s) = tombstones s"
  by (cases x) (simp add: Let_def)

lemma fold_clock_frame:
  "data (fold merge_clock_step xs s) = data s \<and>
   tombstones (fold merge_clock_step xs s) = tombstones s"
  by (induction xs arbitrary: s) (simp_all add: clock_step_frame)














lemma tombstone_step_key:
  "(data (fst (merge_tombstone_step (k, T) (s, m))) k',
    tombstones (fst (merge_tombstone_step (k, T) (s, m))) k') =
     (if k' = k then key_tomb (Some T) (data s k, tombstones s k)
      else (data s k', tombstones s k'))"
  by (cases T) (auto simp: key_tomb_def newer_less Let_def split: option.splits)




lemma data_step_frame:
  "tombstones (fst (merge_data_step x (s, m))) = tombstones s \<and>
   vector_clock (fst (merge_data_step x (s, m))) = vector_clock s \<and>
   node_id (fst (merge_data_step x (s, m))) = node_id s"
  by (cases x) (simp add: Let_def)

lemma fold_data_frame:
  "tombstones (fst (fold merge_data_step xs (s, m))) = tombstones s \<and>
   vector_clock (fst (fold merge_data_step xs (s, m))) = vector_clock s \<and>
   node_id (fst (fold merge_data_step xs (s, m))) = node_id s"
proof (induction xs arbitrary: s m)
  case Nil
  show ?case by simp
next
  case (Cons x xs)
  obtain s' m' where st: "merge_data_step x (s, m) = (s', m')"
    by (cases "merge_data_step x (s, m)") auto
  have "tombstones s' = tombstones s \<and> vector_clock s' = vector_clock s \<and> node_id s' = node_id s"
    using data_step_frame [of x s m] by (simp add: st)
  then show ?case by (simp add: st Cons.IH)
qed




lemma merge_unfold:
  assumes "fold merge_data_step rd (s, False) = (s1, m1)"
    and "fold merge_tombstone_step rt (s1, m1) = (s2, m2)"
  shows "fst (merge_remote_state s rd rt rvc) =
           (if m2 then (fold merge_clock_step rvc s2)\<lparr>version := version (fold merge_clock_step rvc s2) + 1\<rparr>
            else fold merge_clock_step rvc s2)"
  using assms by (simp add: merge_remote_state_def Let_def)






lemmas eval_store =
  merge_remote_state_def CRDTState_init_def CRDTState_set_def CRDTState_get_def
  CRDTState_delete_def newer_def clock_read_def Let_def



text \<open>
  Claim C1 at the scenario it names. Node A sets \<open>k\<close> at time 1, deletes it at time 2 and
  sets it again at time 3; node B merges the snapshot of A after each step (the
  snapshots are the contents of A's maps, as the first six conjuncts say). After the
  last merge B holds the register \<open>(v2, 3, A)\<close>, which is newer than the tombstone \<open>(2, A)\<close>
  that B still holds, and \<open>get\<close> on B returns \<open>None\<close>, while \<open>get\<close> on A returns \<open>v2\<close>.
\<close>

theorem C1_get_after_merged_reset:
  "let A1 = CRDTState_set (CRDTState_init ''A'') 1 ''k'' ''v1'';
       B1 = fst (merge_remote_state (CRDTState_init ''B'') [(''k'', ''v1'', 1, ''A'')] [] [(''A'', 1)]);
       A2 = CRDTState_delete A1 2 ''k'';
       B2 = fst (merge_remote_state B1 [(''k'', ''v1'', 1, ''A'')] [(''k'', 2, ''A'')] [(''A'', 2)]);
       A3 = CRDTState_set A2 3 ''k'' ''v2'';
       B3 = fst (merge_remote_state B2 [(''k'', ''v2'', 3, ''A'')] [] [(''A'', 3)])
   in data A1 = map_of [(''k'', ''v1'', 1, ''A'')] \<and> tombstones A1 = map_of [] \<and>
      data A2 = map_of [(''k'', ''v1'', 1, ''A'')] \<and> tombstones A2 = map_of [(''k'', 2, ''A'')] \<and>
      data A3 = map_of [(''k'', ''v2'', 3, ''A'')] \<and> tombstones A3 = map_of [] \<and>
      CRDTState_get A3 ''k'' = Some ''v2'' \<and>
      CRDTState_get B1 ''k'' = Some ''v1'' \<and>
      CRDTState_get B2 ''k'' = None \<and>
      data B3 ''k'' = Some (''v2'', 3, ''A'') \<and>
      tombstones B3 ''k'' = Some (2, ''A'') \<and>
      newer 3 ''A'' 2 ''A'' \<and>
      CRDTState_get B3 ''k'' = None"
  by (simp add: eval_store)

text \<open>
  Claim C4 as stated fails in the equality case. The local state holds the tombstone
  \<open>(2, A)\<close> for \<open>k\<close> and no register; the remote entry \<open>(v, 2, A)\<close> carries the same
  (timestamp, origin) pair. The loop iteration writes the entry and sets \<open>modified\<close>.
\<close>

theorem C4_equal_tombstone_counterexample:
  "let s = (CRDTState_init ''B'')\<lparr>tombstones := [''k'' \<mapsto> (2, ''A'')]\<rparr>;
       r = merge_remote_state s [(''k'', ''v'', 2, ''A'')] [] []
   in data s ''k'' = None \<and> tombstones s ''k'' = Some (2, ''A'') \<and>
      data (fst r) ''k'' = Some (''v'', 2, ''A'') \<and> snd r = True \<and>
      merge_data_step (''k'', ''v'', 2, ''A'') (s, False) =
        (s\<lparr>data := (data s)(''k'' \<mapsto> (''v'', 2, ''A''))\<rparr>, True)"
  by (simp add: eval_store)

text \<open>
  Claim C4, as amended. In the loop over the remote registers, an entry \<open>(v, ts, org)\<close>
  for \<open>k\<close> is not written (and \<open>modified\<close> is left alone) when the local tombstone for
  \<open>k\<close> is strictly newer than \<open>(ts, org)\<close>. A local tombstone with the identical pair does
  not override \<open>should_update\<close>: the entry is written when \<open>k\<close> has no local register or
  an older one.
\<close>

theorem C4_tombstone_blocks_only_strictly:
  "(tombstones s k = Some (tt, tn) \<and> newer tt tn ts org \<longrightarrow>
      merge_data_step (k, v, ts, org) (s, m) = (s, m))
   \<and>
   (tombstones s k = Some (ts, org) \<and>
    (case data s k of None \<Rightarrow> True | Some (lv, lts, lorg) \<Rightarrow> newer ts org lts lorg) \<longrightarrow>
      merge_data_step (k, v, ts, org) (s, m) =
        (s\<lparr>data := (data s)(k \<mapsto> (v, ts, org))\<rparr>, True))"
  by (auto simp: Let_def newer_def split: option.splits)

text \<open>
The amended claim C4 at a strictly newer tombstone and at an equal one.
\<close>

theorem C4_tombstone_blocks_witness:
  "let s = (CRDTState_init ''B'')\<lparr>tombstones := [''k'' \<mapsto> (2, ''A''), ''j'' \<mapsto> (2, ''A'')]\<rparr>
   in tombstones s ''k'' = Some (2, ''A'') \<and> newer 2 ''A'' 1 ''A'' \<and>
      merge_data_step (''k'', ''v'', 1, ''A'') (s, False) = (s, False) \<and>
      tombstones s ''j'' = Some (2, ''A'') \<and> data s ''j'' = None \<and>
      merge_data_step (''j'', ''v'', 2, ''A'') (s, False) =
        (s\<lparr>data := (data s)(''j'' \<mapsto> (''v'', 2, ''A''))\<rparr>, True)"
  using C4_tombstone_blocks_only_strictly
    [of "(CRDTState_init ''B'')\<lparr>tombstones := [''k'' \<mapsto> (2, ''A''), ''j'' \<mapsto> (2, ''A'')]\<rparr>"
        "''k''" 2 "''A''" 1 "''A''" "''v''" False]
    C4_tombstone_blocks_only_strictly
    [of "(CRDTState_init ''B'')\<lparr>tombstones := [''k'' \<mapsto> (2, ''A''), ''j'' \<mapsto> (2, ''A'')]\<rparr>"
        "''j''" 2 "''A''" 2 "''A''" "''v''" False]
  by (simp add: CRDTState_init_def newer_def Let_def)

lemma fold_tombstone_other_key:
  "k \<notin> fst ` set xs \<Longrightarrow>
   tombstones (fst (fold merge_tombstone_step xs (s, m))) k = tombstones s k"
proof (induction xs arbitrary: s m)
  case Nil
  show ?case by simp
next
  case (Cons x xs)
  obtain k0 T where x: "x = (k0, T)" by (cases x) auto
  obtain s' m' where st: "merge_tombstone_step (k0, T) (s, m) = (s', m')"
    by (cases "merge_tombstone_step (k0, T) (s, m)") auto
  have ne: "k \<noteq> k0" and nk: "k \<notin> fst ` set xs"
    using Cons.prems by (auto simp: x)
  have "tombstones s' k = tombstones s k"
    using tombstone_step_key [of k0 T s m k] ne by (simp add: st)
  then show ?case
    using Cons.IH [OF nk, of s' m'] by (simp add: x st)
qed

text \<open>
  Claim C5. A key that has a tombstone before \<open>merge_remote_state\<close> has one after it,
  the same or a newer one; if the remote tombstones do not mention the key, its tombstone
  is exactly the old one, whatever the remote registers are (also when a newer remote
  register is written into \<open>data\<close>). A local \<open>delete\<close> never removes a tombstone, and a
  local \<open>set\<close> removes the tombstone of the key it sets and no other.
\<close>

theorem C5_merge_keeps_tombstones:
  assumes "tombstones s k = Some (t, n)"
  shows "(\<exists>t' n'. tombstones (fst (merge_remote_state s rd rt rvc)) k = Some (t', n') \<and>
            ((t', n') = (t, n) \<or> newer t' n' t n))
         \<and> (k \<notin> fst ` set rt \<longrightarrow>
              tombstones (fst (merge_remote_state s rd rt rvc)) k = Some (t, n))
         \<and> tombstones (CRDTState_delete s t0 k0) k \<noteq> None
         \<and> (tombstones (CRDTState_set s t0 k0 v) k = None \<longleftrightarrow> k0 = k)"
proof -
  obtain s1 m1 where a: "fold merge_data_step rd (s, False) = (s1, m1)"
    by (cases "fold merge_data_step rd (s, False)") auto
  obtain s2 m2 where b: "fold merge_tombstone_step rt (s1, m1) = (s2, m2)"
    by (cases "fold merge_tombstone_step rt (s1, m1)") auto
  have t1: "tombstones s1 = tombstones s"
    using fold_data_frame [of rd s False] by (simp add: a)
  have fin: "tombstones (fst (merge_remote_state s rd rt rvc)) = tombstones s2"
    by (simp add: merge_unfold [OF a b] fold_clock_frame)
  have "tombstone_settled s1 (k, t, n)"
    using assms by (simp add: tombstone_settled_def t1)
  from fold_tombstone_preserves [OF this, of rt m1]
  have "tombstone_settled s2 (k, t, n)" by (simp add: b)
  then obtain T0 where T0: "tombstones s2 k = Some T0" "\<not> T0 < (t, n)"
    by (auto simp: tombstone_settled_def)
  obtain t' n' where T0': "T0 = (t', n')" by (cases T0) auto
  have "(t', n') = (t, n) \<or> newer t' n' t n"
    using T0(2) unfolding T0' newer_less by auto
  then have 1: "\<exists>t' n'. tombstones (fst (merge_remote_state s rd rt rvc)) k = Some (t', n') \<and>
            ((t', n') = (t, n) \<or> newer t' n' t n)"
    using T0(1) unfolding fin T0' by blast
  have 2: "k \<notin> fst ` set rt \<longrightarrow>
              tombstones (fst (merge_remote_state s rd rt rvc)) k = Some (t, n)"
  proof
    assume "k \<notin> fst ` set rt"
    from fold_tombstone_other_key [OF this, of s1 m1]
    show "tombstones (fst (merge_remote_state s rd rt rvc)) k = Some (t, n)"
      using assms by (simp add: fin b t1)
  qed
  have 3: "tombstones (CRDTState_delete s t0 k0) k \<noteq> None"
    using assms by (simp add: CRDTState_delete_def)
  have 4: "tombstones (CRDTState_set s t0 k0 v) k = None \<longleftrightarrow> k0 = k"
    using assms by (auto simp: CRDTState_set_def)
  from 1 2 3 4 show ?thesis by blast
qed

text \<open>
  Claim C5 at a concrete state: the remote register \<open>(v2, 3, A)\<close> is newer than the local
  tombstone \<open>(2, A)\<close>, it is written, and the tombstone stays.
\<close>

theorem C5_merge_keeps_tombstones_witness:
  "let s = (CRDTState_init ''B'')\<lparr>tombstones := [''k'' \<mapsto> (2, ''A'')]\<rparr>;
       s' = fst (merge_remote_state s [(''k'', ''v2'', 3, ''A'')] [] [(''A'', 3)])
   in tombstones s ''k'' = Some (2, ''A'') \<and> ''k'' \<notin> fst ` set ([] :: (string \<times> tombstone) list) \<and>
      newer 3 ''A'' 2 ''A'' \<and>
      data s' ''k'' = Some (''v2'', 3, ''A'') \<and> tombstones s' ''k'' = Some (2, ''A'') \<and>
      tombstones (CRDTState_set s 4 ''k'' ''v3'') ''k'' = None"
  using C5_merge_keeps_tombstones
    [of "(CRDTState_init ''B'')\<lparr>tombstones := [''k'' \<mapsto> (2, ''A'')]\<rparr>" "''k''" 2 "''A''"
        "[(''k'', ''v2'', 3, ''A'')]" "[]" "[(''A'', 3)]" 4 "''k''" "''v3''"]
  by (simp add: eval_store)

section \<open>Properties of the transport\<close>

lemma unpack_pack_I:
  "unpack_I (ucast (drop_bit 24 w)) (ucast (drop_bit 16 w)) (ucast (drop_bit 8 w)) (ucast w) = w"
proof (rule bit_word_eqI)
  fix n
  assume "n < LENGTH(32)"
  then consider "n < 8" | "8 \<le> n" "n < 16" | "16 \<le> n" "n < 24" | "24 \<le> n" "n < 32"
    by force
  then show "bit (unpack_I (ucast (drop_bit 24 w)) (ucast (drop_bit 16 w))
                 (ucast (drop_bit 8 w)) (ucast w)) n = bit w n"
    unfolding unpack_I_def
    by cases (auto simp: bit_simps)
qed

lemma struct_unpack_pack:
  assumes "struct_pack v t s c = Inr h"
  shows "length h = 10 \<and> struct_unpack h = Inr (v, t, s, c)"
proof -
  have r: "0 \<le> v" "v \<le> 255" "0 \<le> t" "t \<le> 255" "0 \<le> s" "s \<le> 4294967295"
    using assms by (auto simp: struct_pack_def split: if_splits)
  have h: "h = [word_of_int v, word_of_int t] @ pack_I (word_of_int s) @ pack_I c"
    using assms r by (simp add: struct_pack_def)
  have v: "uint (word_of_int v :: byte) = v" and t: "uint (word_of_int t :: byte) = t"
    using r by (simp_all add: uint_word_of_int)
  have s: "uint (word_of_int s :: 32 word) = s"
    using r by (simp add: uint_word_of_int)
  show ?thesis
    unfolding h by (simp add: pack_I_def unpack_pack_I v t s)
qed

lemma struct_pack_in_range:
  assumes "0 \<le> t" "t < 2 ^ 8" "0 \<le> s" "s < 2 ^ 32"
  shows "\<exists>h. struct_pack VERSION t s c = Inr h"
  using assms by (simp add: struct_pack_def VERSION_def)

lemma deserialize_serialize:
  assumes "serialize md5 dumps p = Inr bs"
  shows "deserialize_result md5 loads now bs =
           (case loads (take MAX_PAYLOAD_SIZE (dumps (payload p))) of
              None \<Rightarrow> Inl DeserializationError
            | Some pl \<Rightarrow> Inr \<lparr>packet_type = packet_type p, seq_num = seq_num p,
                               payload = pl, timestamp = now\<rparr>)"
proof -
  define pb where "pb = take MAX_PAYLOAD_SIZE (dumps (payload p))"
  have pb: "(if length (dumps (payload p)) > MAX_PAYLOAD_SIZE
             then take MAX_PAYLOAD_SIZE (dumps (payload p)) else dumps (payload p)) = pb"
    by (simp add: pb_def)
  obtain h where h: "struct_pack VERSION (packet_type p) (seq_num p) (calculate_checksum md5 pb) = Inr h"
    and bs: "bs = h @ pb"
    using assms by (auto simp: serialize_def Let_def pb split: sum.splits)
  from struct_unpack_pack [OF h]
  have lh: "length h = 10"
    and uh: "struct_unpack h = Inr (VERSION, packet_type p, seq_num p, calculate_checksum md5 pb)"
    by simp_all
  show ?thesis
    unfolding pb_def [symmetric]
    by (simp add: deserialize_result_def bs HEADER_SIZE_def lh uh Let_def)
qed

text \<open>
  Claim C8. A packet whose payload serializes to at most \<open>MAX_PAYLOAD_SIZE\<close> bytes and
  comes back from \<open>loads\<close> as it went into \<open>dumps\<close>, whose sequence number fits in 32
  bits and whose type fits in one byte, is serialized without error, and \<open>deserialize\<close>
  of the bytes returns a packet with the same type, sequence number and payload (its
  timestamp is the receiver's).
\<close>

theorem C8_deserialize_serialize_roundtrip:
  assumes "length (dumps (payload p)) \<le> MAX_PAYLOAD_SIZE"
    and "loads (dumps (payload p)) = Some (payload p)"
    and "0 \<le> seq_num p" "seq_num p < 2 ^ 32"
    and "0 \<le> packet_type p" "packet_type p < 2 ^ 8"
  shows "\<exists>bs p'. serialize md5 dumps p = Inr bs \<and> deserialize md5 loads now bs = Some p' \<and>
           packet_type p' = packet_type p \<and> seq_num p' = seq_num p \<and> payload p' = payload p"
proof -
  obtain h where "struct_pack VERSION (packet_type p) (seq_num p)
          (calculate_checksum md5 (dumps (payload p))) = Inr h"
    using struct_pack_in_range [OF assms(5,6,3,4)] by blast
  then obtain bs where bs: "serialize md5 dumps p = Inr bs"
    using assms(1) by (simp add: serialize_def Let_def)
  have "take MAX_PAYLOAD_SIZE (dumps (payload p)) = dumps (payload p)"
    using assms(1) by simp
  with deserialize_serialize [OF bs, of loads now] assms(2)
  have "deserialize_result md5 loads now bs =
          Inr \<lparr>packet_type = packet_type p, seq_num = seq_num p, payload = payload p,
               timestamp = now\<rparr>"
    by simp
  then show ?thesis
    using bs by (simp add: deserialize_def)
qed


lemmas eval_wire =
  serialize_def deserialize_def deserialize_result_def struct_pack_def pack_I_def unpack_I_def
  calculate_checksum_def sample_md5_def sample_dumps_def sample_loads_def
  VERSION_def HEADER_SIZE_def MAX_PAYLOAD_SIZE_def Let_def

text \<open>
Claim C8 at the packet \<open>(DATA, 42, "hi")\<close>.
\<close>

theorem C8_roundtrip_witness:
  "let p = \<lparr>packet_type = 0, seq_num = 42, payload = JString ''hi'', timestamp = 0\<rparr>
   in length (sample_dumps (payload p)) \<le> MAX_PAYLOAD_SIZE \<and>
      sample_loads (sample_dumps (payload p)) = Some (payload p) \<and>
      serialize sample_md5 sample_dumps p = Inr [1, 0, 0, 0, 0, 42, 0, 0, 0, 4, 34, 104, 105, 34] \<and>
      deserialize sample_md5 sample_loads 7 [1, 0, 0, 0, 0, 42, 0, 0, 0, 4, 34, 104, 105, 34] =
        Some \<lparr>packet_type = 0, seq_num = 42, payload = JString ''hi'', timestamp = 7\<rparr>"
  using C8_deserialize_serialize_roundtrip
    [of sample_dumps "\<lparr>packet_type = 0, seq_num = 42, payload = JString ''hi'', timestamp = 0\<rparr>"
        sample_loads sample_md5 7]
  by (simp add: eval_wire char_of_def bit_simps)



















lemma scan_fold:
  "fold (scan_step now) xs (tbl, acc) =
     (filter (\<lambda>e. fst e \<notin> fst ` set (filter (gives_up now) xs)) tbl,
      acc @ map to_retry_entry (filter (retries_now now) xs))"
proof (induction xs arbitrary: tbl acc)
  case Nil
  show ?case by simp
next
  case (Cons x xs)
  obtain seq packet t r a where x: "x = (seq, packet, t, r, a)"
    by (cases x) auto
  consider (giveup) "gives_up now x" "\<not> retries_now now x"
    | (retry) "retries_now now x" "\<not> gives_up now x"
    | (wait) "\<not> gives_up now x" "\<not> retries_now now x"
    by (auto simp: gives_up_def retries_now_def x)
  then show ?case
  proof cases
    case giveup
    then have st: "scan_step now x (tbl, acc) = (AList.delete seq tbl, acc)"
      by (simp add: x gives_up_def)
    have "filter (\<lambda>e. fst e \<notin> fst ` set (filter (gives_up now) xs)) (AList.delete seq tbl) =
          filter (\<lambda>e. fst e \<notin> insert seq (fst ` set (filter (gives_up now) xs))) tbl"
      by (induction tbl) (auto simp: AList.delete_eq)
    with giveup show ?thesis
      by (simp add: st Cons.IH) (simp add: x)
  next
    case retry
    then have st: "scan_step now x (tbl, acc) = (tbl, acc @ [(seq, packet, r, a)])"
      by (simp add: x retries_now_def)
    from retry show ?thesis
      by (simp add: st Cons.IH) (simp add: x to_retry_entry_def)
  next
    case wait
    then have st: "scan_step now x (tbl, acc) = (tbl, acc)"
      by (auto simp: x retries_now_def gives_up_def)
    from wait show ?thesis
      by (simp add: st Cons.IH)
  qed
qed

lemma resend_result:
  assumes "\<forall>e \<in> set xs. \<exists>bytes. ser (fst (snd e)) = Inr bytes"
  shows "\<exists>tbl'. resend ser clock xs (tbl, sent) =
             Inr (tbl', sent @ map (\<lambda>(k, p, n, b). (projr (ser p), b)) xs) \<and>
           fst ` set tbl' = fst ` set tbl \<and>
           (\<forall>k. k \<notin> fst ` set xs \<longrightarrow> map_of tbl' k = map_of tbl k) \<and>
           (distinct (map fst xs) \<longrightarrow>
              (\<forall>k p n b. (k, p, n, b) \<in> set xs \<and> k \<in> fst ` set tbl \<longrightarrow>
                 map_of tbl' k = Some (p, clock k, n + 1, b)))"
  using assms
proof (induction xs arbitrary: tbl sent)
  case Nil
  show ?case by simp
next
  case (Cons x xs)
  obtain seq packet r a where x: "x = (seq, packet, r, a)"
    by (cases x) auto
  obtain bytes where ser: "ser packet = Inr bytes"
    using Cons.prems by (auto simp: x)
  define tbl1 where "tbl1 = (if seq \<in> fst ` set tbl
             then AList.update seq (packet, clock seq, r + 1, a) tbl else tbl)"
  have step: "resend ser clock (x # xs) (tbl, sent) = resend ser clock xs (tbl1, sent @ [(bytes, a)])"
    by (simp add: x ser tbl1_def)
  have keys1: "fst ` set tbl1 = fst ` set tbl"
    by (auto simp: tbl1_def dom_update)
  have other1: "map_of tbl1 k = map_of tbl k" if "k \<noteq> seq" for k
    using that by (simp add: tbl1_def update_conv')
  have this1: "map_of tbl1 seq = Some (packet, clock seq, r + 1, a)" if "seq \<in> fst ` set tbl"
    using that by (simp add: tbl1_def update_conv')
  have "\<forall>e \<in> set xs. \<exists>bytes. ser (fst (snd e)) = Inr bytes"
    using Cons.prems by simp
  from Cons.IH [OF this, of tbl1 "sent @ [(bytes, a)]"]
  obtain tbl' where
    r: "resend ser clock xs (tbl1, sent @ [(bytes, a)]) =
          Inr (tbl', (sent @ [(bytes, a)]) @ map (\<lambda>(k, p, n, b). (projr (ser p), b)) xs)"
    and keys: "fst ` set tbl' = fst ` set tbl1"
    and other: "\<forall>k. k \<notin> fst ` set xs \<longrightarrow> map_of tbl' k = map_of tbl1 k"
    and upd: "distinct (map fst xs) \<longrightarrow>
              (\<forall>k p n b. (k, p, n, b) \<in> set xs \<and> k \<in> fst ` set tbl1 \<longrightarrow>
                 map_of tbl' k = Some (p, clock k, n + 1, b))"
    by blast
  have 1: "resend ser clock (x # xs) (tbl, sent) =
             Inr (tbl', sent @ map (\<lambda>(k, p, n, b). (projr (ser p), b)) (x # xs))"
    unfolding step r by (simp add: x ser)
  have 2: "fst ` set tbl' = fst ` set tbl"
    by (simp add: keys keys1)
  have 3: "\<forall>k. k \<notin> fst ` set (x # xs) \<longrightarrow> map_of tbl' k = map_of tbl k"
    using other other1 by (auto simp: x)
  have 4: "distinct (map fst (x # xs)) \<longrightarrow>
              (\<forall>k p n b. (k, p, n, b) \<in> set (x # xs) \<and> k \<in> fst ` set tbl \<longrightarrow>
                 map_of tbl' k = Some (p, clock k, n + 1, b))"
  proof (intro impI allI)
    fix k p n b
    assume d: "distinct (map fst (x # xs))"
      and m: "(k, p, n, b) \<in> set (x # xs) \<and> k \<in> fst ` set tbl"
    have nk: "seq \<notin> fst ` set xs" and dx: "distinct (map fst xs)"
      using d by (simp_all add: x)
    show "map_of tbl' k = Some (p, clock k, n + 1, b)"
    proof (cases "(k, p, n, b) = x")
      case True
      then have e: "k = seq" "p = packet" "n = r" "b = a" by (simp_all add: x)
      have "map_of tbl' seq = map_of tbl1 seq"
        using other nk by blast
      then show ?thesis
        using this1 m by (simp add: e)
    next
      case False
      then have "(k, p, n, b) \<in> set xs" using m by simp
      moreover have "k \<in> fst ` set tbl1" using m keys1 by simp
      ultimately show ?thesis using upd dx by blast
    qed
  qed
  from 1 2 3 4 show ?case by blast
qed

lemma map_of_filter_member:
  assumes "distinct (map fst xs)" "(k, v) \<in> set xs" "P (k, v)"
  shows "map_of (filter P xs) k = Some v"
proof -
  have "distinct (map fst (filter P xs))"
    using assms(1) by (rule distinct_map_filter)
  moreover have "(k, v) \<in> set (filter P xs)"
    using assms(2,3) by simp
  ultimately show ?thesis by simp
qed

lemma retry_timeout_value: "retry_timeout r = min (0.5 * 2 ^ r) 8"
  by (simp add: retry_timeout_def INITIAL_TIMEOUT_def MAX_TIMEOUT_def)

text \<open>
  Claim C7. Let the in-flight table be a dictionary whose packets all serialize (each was
  serialized when it was sent), and let it hold \<open>(packet, send_time, r, a)\<close> under
  \<open>seq\<close>. One iteration of the retry loop, with no acknowledgement arriving in between,
  ends without error, and the timeout of the entry is \<open>min(0.5 * 2^r, 8)\<close>. If
  \<open>now - send_time\<close> does not exceed it, the entry is left as it is. If it does and
  \<open>r \<ge> 5\<close>, the entry is deleted. If it does and \<open>r < 5\<close>, the entry becomes
  \<open>(packet, t, r + 1, a)\<close> with \<open>t\<close> the clock reading at the rewrite, and the
  serialized packet is sent to \<open>a\<close>. The datagrams sent are exactly the serialized
  packets of the entries that timed out with fewer than \<open>MAX_RETRIES\<close> retries, in the
  order of the table. Clock readings are modelled as real numbers.
\<close>

theorem C7_retry_loop_iteration:
  assumes "distinct (map fst (pending_acks s))"
    and "map_of (pending_acks s) seq = Some (packet, send_time, r, a)"
    and "\<forall>e \<in> set (pending_acks s). \<exists>bytes. serialize md5 dumps (fst (snd e)) = Inr bytes"
  shows "\<exists>s' sent bytes.
           retry_loop_iteration md5 dumps clock now s = Inr (s', sent) \<and>
           serialize md5 dumps packet = Inr bytes \<and>
           retry_timeout r = min (0.5 * 2 ^ r) 8 \<and>
           (if now - send_time > retry_timeout r
            then if r \<ge> 5
                 then map_of (pending_acks s') seq = None
                 else map_of (pending_acks s') seq = Some (packet, clock seq, r + 1, a) \<and>
                      (bytes, a) \<in> set sent
            else map_of (pending_acks s') seq = Some (packet, send_time, r, a)) \<and>
           map (\<lambda>(bytes, b). (Inr bytes, b)) sent =
             map (\<lambda>(k, p, t, n, b). (serialize md5 dumps p, b))
               (filter (\<lambda>(k, p, t, n, b). now - t > retry_timeout n \<and> n < MAX_RETRIES)
                  (pending_acks s))"
proof -
  define xs where "xs = pending_acks s"
  define ser where "ser = serialize md5 dumps"
  define G where "G = fst ` set (filter (gives_up now) xs)"
  define pend1 where "pend1 = filter (\<lambda>e. fst e \<notin> G) xs"
  define tr where "tr = map to_retry_entry (filter (retries_now now) xs)"
  define e0 where "e0 = (seq, packet, send_time, r, a)"
  have dist: "distinct (map fst xs)" using assms(1) by (simp add: xs_def)
  have e0_in: "e0 \<in> set xs"
    using assms(2) by (auto simp: xs_def e0_def dest: map_of_SomeD)
  have uniq: "e = e0" if "e \<in> set xs" "fst e = seq" for e
  proof -
    obtain k v where e: "e = (k, v)" by (cases e) auto
    have "map_of xs seq = Some v"
      using that dist by (simp add: e)
    then show ?thesis
      using assms(2) that(2) by (simp add: xs_def e e0_def)
  qed
  have ser_all: "\<forall>e \<in> set xs. \<exists>bytes. ser (fst (snd e)) = Inr bytes"
    using assms(3) by (simp add: xs_def ser_def)
  then obtain bytes where bytes: "ser packet = Inr bytes"
    using e0_in by (auto simp: e0_def)
  have scan: "fold (scan_step now) xs (xs, []) = (pend1, tr)"
    by (simp add: scan_fold pend1_def tr_def G_def)
  have ser_tr: "\<forall>e \<in> set tr. \<exists>bytes. ser (fst (snd e)) = Inr bytes"
    using ser_all by (auto simp: tr_def to_retry_entry_def)
  have keys_tr: "map fst tr = map fst (filter (retries_now now) xs)"
    by (simp add: tr_def to_retry_entry_def case_prod_unfold comp_def)
  have dist_tr: "distinct (map fst tr)"
    unfolding keys_tr using dist by (rule distinct_map_filter)
  from resend_result [OF ser_tr, of clock pend1 "[]"]
  obtain tbl' where
    res: "resend ser clock tr (pend1, []) =
            Inr (tbl', [] @ map (\<lambda>(k, p, n, b). (projr (ser p), b)) tr)"
    and other0: "\<forall>k. k \<notin> fst ` set tr \<longrightarrow> map_of tbl' k = map_of pend1 k"
    and upd0: "distinct (map fst tr) \<longrightarrow>
              (\<forall>k p n b. (k, p, n, b) \<in> set tr \<and> k \<in> fst ` set pend1 \<longrightarrow>
                 map_of tbl' k = Some (p, clock k, n + 1, b))"
    by blast
  have other: "map_of tbl' k = map_of pend1 k" if "k \<notin> fst ` set tr" for k
    using other0 that by blast
  have upd: "map_of tbl' k = Some (p, clock k, n + 1, b)"
    if "(k, p, n, b) \<in> set tr" "k \<in> fst ` set pend1" for k p n b
    using upd0 dist_tr that by blast
  define sent where "sent = map (\<lambda>(k, p, n, b). (projr (ser p), b)) tr"
  have it: "retry_loop_iteration md5 dumps clock now s = Inr (s\<lparr>pending_acks := tbl'\<rparr>, sent)"
  proof -
    have 1: "fold (scan_step now) (pending_acks s) (pending_acks s, []) = (pend1, tr)"
      using scan by (simp only: xs_def)
    have 2: "resend (serialize md5 dumps) clock tr (pend1, []) = Inr (tbl', sent)"
      using res by (simp only: ser_def sent_def append_Nil)
    show ?thesis
      by (simp add: retry_loop_iteration_def 1 2)
  qed
  have inG: "seq \<in> G \<longleftrightarrow> gives_up now e0"
  proof
    assume "seq \<in> G"
    then obtain e where "e \<in> set xs" "gives_up now e" "fst e = seq"
      unfolding G_def by auto
    with uniq [of e] show "gives_up now e0" by simp
  next
    assume "gives_up now e0"
    with e0_in have "e0 \<in> set (filter (gives_up now) xs)" by simp
    then have "fst e0 \<in> G" unfolding G_def by (rule imageI)
    then show "seq \<in> G" by (simp add: e0_def)
  qed
  have intr: "seq \<in> fst ` set tr \<longleftrightarrow> retries_now now e0"
  proof
    assume "seq \<in> fst ` set tr"
    then have "seq \<in> set (map fst tr)" by simp
    then have "seq \<in> fst ` set (filter (retries_now now) xs)"
      unfolding keys_tr by simp
    then obtain e where "e \<in> set xs" "retries_now now e" "fst e = seq"
      by auto
    with uniq [of e] show "retries_now now e0" by simp
  next
    assume "retries_now now e0"
    with e0_in have "e0 \<in> set (filter (retries_now now) xs)" by simp
    then have "fst e0 \<in> fst ` set (filter (retries_now now) xs)" by (rule imageI)
    then have "seq \<in> set (map fst tr)"
      unfolding keys_tr by (simp add: e0_def)
    then show "seq \<in> fst ` set tr" by simp
  qed
  have gu: "gives_up now e0 \<longleftrightarrow> now - send_time > retry_timeout r \<and> r \<ge> 5"
    by (simp add: gives_up_def e0_def MAX_RETRIES_def)
  have rn: "retries_now now e0 \<longleftrightarrow> now - send_time > retry_timeout r \<and> r < 5"
    by (simp add: retries_now_def e0_def MAX_RETRIES_def)
  have keep: "map_of pend1 seq = Some (packet, send_time, r, a)" if "\<not> gives_up now e0"
    unfolding pend1_def
    using map_of_filter_member [OF dist, of seq "(packet, send_time, r, a)" "\<lambda>e. fst e \<notin> G"]
      e0_in that inG
    by (simp add: e0_def)
  have drop: "map_of pend1 seq = None" if "gives_up now e0"
    using that inG by (auto simp: pend1_def map_of_eq_None_iff)
  have table:
    "if now - send_time > retry_timeout r
     then if r \<ge> 5
          then map_of tbl' seq = None
          else map_of tbl' seq = Some (packet, clock seq, r + 1, a) \<and> (bytes, a) \<in> set sent
     else map_of tbl' seq = Some (packet, send_time, r, a)"
  proof (cases "now - send_time > retry_timeout r")
    case False
    then have "\<not> gives_up now e0" "seq \<notin> fst ` set tr"
      using gu rn intr by simp_all
    then show ?thesis
      using False other [of seq] keep by simp
  next
    case due: True
    show ?thesis
    proof (cases "r \<ge> 5")
      case True
      then have "gives_up now e0" "seq \<notin> fst ` set tr"
        using due gu rn intr by simp_all
      then show ?thesis
        using due True other [of seq] drop by simp
    next
      case False
      then have ngu: "\<not> gives_up now e0" and r: "retries_now now e0"
        using due gu rn by simp_all
      have m: "(seq, packet, r, a) \<in> set tr"
        using e0_in r by (force simp: tr_def to_retry_entry_def e0_def)
      have "seq \<in> fst ` set pend1"
        using keep [OF ngu] by (metis map_of_eq_None_iff option.distinct(1))
      from upd [OF m this] have 1: "map_of tbl' seq = Some (packet, clock seq, r + 1, a)" .
      have "(bytes, a) \<in> set sent"
        unfolding sent_def using m bytes by force
      with 1 due False show ?thesis by simp
    qed
  qed
  have rn_eq: "retries_now now = (\<lambda>(k, p, t, n, b). now - t > retry_timeout n \<and> n < MAX_RETRIES)"
    by (rule ext) (simp add: retries_now_def)
  have sent_eq: "map (\<lambda>(bytes, b). (Inr bytes, b)) sent =
             map (\<lambda>(k, p, t, n, b). (ser p, b)) (filter (retries_now now) xs)"
    unfolding sent_def tr_def map_map
  proof (rule map_cong [OF refl])
    fix e assume "e \<in> set (filter (retries_now now) xs)"
    then have "e \<in> set xs" by simp
    with ser_all obtain bs where "ser (fst (snd e)) = Inr bs" by blast
    then show "((\<lambda>(bytes, b). (Inr bytes, b)) \<circ> ((\<lambda>(k, p, n, b). (projr (ser p), b)) \<circ> to_retry_entry)) e =
          (case e of (k, p, t, n, b) \<Rightarrow> (ser p, b))"
      by (cases e) (auto simp: to_retry_entry_def)
  qed
  show ?thesis
    using it bytes table sent_eq retry_timeout_value [of r]
    unfolding rn_eq ser_def xs_def
    by (intro exI [of _ "s\<lparr>pending_acks := tbl'\<rparr>"] exI [of _ sent] exI [of _ bytes]) simp
qed


lemmas eval_retry =
  retry_loop_iteration_def retry_timeout_def INITIAL_TIMEOUT_def MAX_TIMEOUT_def MAX_RETRIES_def
  AList.update.simps AList.delete_eq ReliableUDPSocket_init_def

text \<open>
  Claim C7 at a table of three entries at time 10: one sent at 9.8 (kept), one sent at 8
  with one retry (resent, two retries now), one sent at 1 with five retries (deleted).
\<close>

theorem C7_retry_loop_iteration_witness:
  "let a = (''10.0.0.2'', 5001);
       p1 = \<lparr>packet_type = 2, seq_num = 1, payload = JString ''a'', timestamp = 9.8\<rparr>;
       p2 = \<lparr>packet_type = 2, seq_num = 2, payload = JString ''b'', timestamp = 7\<rparr>;
       p3 = \<lparr>packet_type = 2, seq_num = 3, payload = JString ''c'', timestamp = 0\<rparr>;
       s = ReliableUDPSocket_init\<lparr>pending_acks :=
             [(1, p1, 9.8, 0, a), (2, p2, 8, 1, a), (3, p3, 1, 5, a)]\<rparr>
           :: string ReliableUDPSocket
   in distinct (map fst (pending_acks s)) \<and>
      map_of (pending_acks s) 2 = Some (p2, 8, 1, a) \<and>
      (\<forall>e \<in> set (pending_acks s). \<exists>bytes. serialize sample_md5 sample_dumps (fst (snd e)) = Inr bytes) \<and>
      serialize sample_md5 sample_dumps p2 = Inr [1, 2, 0, 0, 0, 2, 0, 0, 0, 3, 34, 98, 34] \<and>
      retry_timeout 0 = 0.5 \<and> retry_timeout 1 = 1 \<and> retry_timeout 5 = 8 \<and>
      retry_loop_iteration sample_md5 sample_dumps (\<lambda>seq. 10.1) 10 s =
        Inr (s\<lparr>pending_acks := [(1, p1, 9.8, 0, a), (2, p2, 10.1, 2, a)]\<rparr>,
             [([1, 2, 0, 0, 0, 2, 0, 0, 0, 3, 34, 98, 34], a)])"
  using C7_retry_loop_iteration
    [where s = "ReliableUDPSocket_init\<lparr>pending_acks :=
             [(1, \<lparr>packet_type = 2, seq_num = 1, payload = JString ''a'', timestamp = 9.8\<rparr>,
               9.8, 0, (''10.0.0.2'', 5001)),
              (2, \<lparr>packet_type = 2, seq_num = 2, payload = JString ''b'', timestamp = 7\<rparr>,
               8, 1, (''10.0.0.2'', 5001)),
              (3, \<lparr>packet_type = 2, seq_num = 3, payload = JString ''c'', timestamp = 0\<rparr>,
               1, 5, (''10.0.0.2'', 5001))]\<rparr> :: string ReliableUDPSocket"
       and seq = 2
       and packet = "\<lparr>packet_type = 2, seq_num = 2, payload = JString ''b'', timestamp = 7\<rparr>"
       and send_time = 8 and r = 1 and a = "(''10.0.0.2'', 5001)"
       and ?md5.0 = sample_md5 and dumps = sample_dumps and clock = "\<lambda>seq. 10.1" and now = 10]
  by (simp add: eval_retry eval_wire)

end
